theory Spec2Isabelle
  imports Main "HOL-Library.Word" "HOL-Library.Sublist"
begin

section \<open>Sink types (internal/sinks/types/sink\_type.go)\<close>

text \<open>
  \<^verbatim>\<open>type SinkType uint8\<close> followed by one \<^verbatim>\<open>const\<close> block that numbers its
  identifiers with \<^verbatim>\<open>iota\<close>. Go has no closed enumerations: the "enum" is the list of
  constants the block declares, each an unsigned 8-bit value.
\<close>

type_synonym SinkType = "8 word"

text \<open>The \<^verbatim>\<open>iota\<close> numbering of a const block: the k-th identifier gets the value k.\<close>

fun iota_from :: "nat \<Rightarrow> string list \<Rightarrow> (string \<times> SinkType) list" where
  "iota_from k [] = []"
| "iota_from k (c # cs) = (c, of_nat k) # iota_from (Suc k) cs"

definition SinkType_consts :: "(string \<times> SinkType) list" where
  "SinkType_consts = iota_from 0 [''StdIO'', ''InfluxUDP'', ''InfluxHTTP'', ''Elastic'']"

definition StdIO :: SinkType where "StdIO = 0"
definition InfluxUDP :: SinkType where "InfluxUDP = 1"
definition InfluxHTTP :: SinkType where "InfluxHTTP = 2"
definition Elastic :: SinkType where "Elastic = 3"

section \<open>Configuration, statistics and events\<close>

text \<open>
  Modelled from the spec: \<^verbatim>\<open>types.SinkConfig\<close>, whose declaration is not among the
  sources. The spec lists a name, the sink type, backend connection parameters, a flush
  interval and batch limits; the code below reads the name only. The zero value is Go's:
  every field zero.
\<close>

record SinkConfig =
  Name :: string
  Type :: SinkType
  Addr :: string
  FlushInterval :: nat
  BatchSize :: nat

definition SinkConfig_zero :: SinkConfig where
  "SinkConfig_zero = \<lparr>Name = [], Type = 0, Addr = [], FlushInterval = 0, BatchSize = 0\<rparr>"

text \<open>
  Modelled from the spec: \<^verbatim>\<open>types.SinkStats\<close> and its methods, whose declaration is
  not among the sources. The spec gives three counters, incremented atomically one step at
  a time and read through a snapshot accessor. The counters are unsigned 64-bit words, so
  \<open>+ 1\<close> wraps around as Go's unsigned addition does.
\<close>

record SinkStats =
  eventsPushed :: "64 word"
  batchesSent :: "64 word"
  batchesDropped :: "64 word"

definition SinkStats_zero :: SinkStats where
  "SinkStats_zero = \<lparr>eventsPushed = 0, batchesSent = 0, batchesDropped = 0\<rparr>"

definition IncrEventsPushed :: "SinkStats \<Rightarrow> SinkStats" where
  "IncrEventsPushed s = s\<lparr>eventsPushed := eventsPushed s + 1\<rparr>"

definition IncrBatchSent :: "SinkStats \<Rightarrow> SinkStats" where
  "IncrBatchSent s = s\<lparr>batchesSent := batchesSent s + 1\<rparr>"

definition IncrBatchDropped :: "SinkStats \<Rightarrow> SinkStats" where
  "IncrBatchDropped s = s\<lparr>batchesDropped := batchesDropped s + 1\<rparr>"

definition Get :: "SinkStats \<Rightarrow> SinkStats" where
  "Get s = s"

text \<open>
  The accounting event (\<^verbatim>\<open>bpf.Event\<close>, in the integration test \<^verbatim>\<open>AcctEvent\<close>). Its
  declaration is not among the sources; the fields are the ones the integration test
  reads. \<^verbatim>\<open>SrcPort\<close> is compared with a \<^verbatim>\<open>uint16\<close> there; the counters are only ever
  compared with small constants, so they are natural numbers.
\<close>

record Event =
  Proto :: nat
  SrcAddr :: "nat list"
  DstAddr :: "nat list"
  SrcPort :: "16 word"
  DstPort :: "16 word"
  PacketsOrig :: nat
  BytesOrig :: nat
  PacketsRet :: nat
  BytesRet :: nat
  NetNS :: nat
  Connmark :: nat

text \<open>Go's \<^verbatim>\<open>error\<close> results: \<open>None\<close> is \<^verbatim>\<open>nil\<close>.\<close>

type_synonym error = string

section \<open>The InfluxDB sink's workers (package influxdb: sendWorker, tickWorker)\<close>

text \<open>
  The file holds the two worker methods of \<^verbatim>\<open>InfluxSink\<close>; the struct is declared
  elsewhere. Its fields are the ones the workers use: \<^verbatim>\<open>config\<close> (for the name in the
  log line), \<^verbatim>\<open>client\<close> (the backend handle), \<^verbatim>\<open>batch\<close> (guarded by \<^verbatim>\<open>batchMu\<close>),
  \<^verbatim>\<open>sendChan\<close> and \<^verbatim>\<open>stats\<close>. A batch is the list of its points, of any type \<open>'p\<close>;
  the channel is the list of the batches sent and not yet received, oldest first.
\<close>

record 'p BatchPoints =
  Points :: "'p list"

record ('p, 'c) InfluxSink =
  config :: SinkConfig
  client :: 'c
  batch :: "'p BatchPoints"
  sendChan :: "'p BatchPoints list"
  stats :: SinkStats

text \<open>
  The backend is an external collaborator with one capability, \<^verbatim>\<open>client.Write(b)\<close>. It
  is a parameter of the model: any function from the backend's state \<open>'c\<close> and the batch
  to an error result and the backend's next state, so a backend may fail at any write.
\<close>

type_synonym ('p, 'c) Write = "'c \<Rightarrow> 'p BatchPoints \<Rightarrow> error option \<times> 'c"

text \<open>The line that \<^verbatim>\<open>log.Errorf\<close> prints when a write fails.\<close>

definition Errorf :: "string \<Rightarrow> error \<Rightarrow> string" where
  "Errorf name err =
     ''InfluxDB sink '' @ [CHR 0x27] @ name @ [CHR 0x27] @ '': Error writing batch: '' @ err
       @ ''. Batch dropped.''"

text \<open>
  Modelled from the spec: \<^verbatim>\<open>newBatch\<close>, a method of the sink that is not among the
  sources. The spec has the tick worker "allocate a new empty batch".
\<close>

definition newBatch :: "('p, 'c) InfluxSink \<Rightarrow> ('p, 'c) InfluxSink" where
  "newBatch s = s\<lparr>batch := \<lparr>Points = []\<rparr>\<rparr>"

text \<open>
  Modelled from the spec: \<^verbatim>\<open>Push\<close> of the batching sink, which is not among the
  sources. The spec has it append the event's encoded point to the active batch under the
  batch lock and always increment eventsPushed. The point is passed already encoded.
\<close>

definition Influx_Push :: "('p, 'c) InfluxSink \<Rightarrow> 'p \<Rightarrow> ('p, 'c) InfluxSink" where
  "Influx_Push s p =
     s\<lparr>batch := \<lparr>Points = Points (batch s) @ [p]\<rparr>, stats := IncrEventsPushed (stats s)\<rparr>"

subsection \<open>sendWorker\<close>

text \<open>
  The body of the loop after the receive: write the batch; on an error log it, count a
  dropped batch and \<^verbatim>\<open>continue\<close>; otherwise count a sent batch. The result is the error
  of the write, the lines logged and the sink.
\<close>

definition write_batch ::
  "('p, 'c) Write \<Rightarrow> ('p, 'c) InfluxSink \<Rightarrow> 'p BatchPoints
     \<Rightarrow> error option \<times> string list \<times> ('p, 'c) InfluxSink" where
  "write_batch W s b =
     (case W (client s) b of
        (Some err, c) \<Rightarrow>
          (Some err, [Errorf (Name (config s)) err],
           s\<lparr>client := c, stats := IncrBatchDropped (stats s)\<rparr>)
      | (None, c) \<Rightarrow> (None, [], s\<lparr>client := c, stats := IncrBatchSent (stats s)\<rparr>))"

text \<open>
  One iteration: \<^verbatim>\<open>b := <-s.sendChan\<close> takes the oldest batch of the channel and blocks
  on an empty one (\<open>None\<close>: the iteration does not happen).
\<close>

definition sendWorker_iter ::
  "('p, 'c) Write \<Rightarrow> ('p, 'c) InfluxSink
     \<Rightarrow> ('p BatchPoints \<times> error option \<times> string list \<times> ('p, 'c) InfluxSink) option" where
  "sendWorker_iter W s =
     (case sendChan s of
        [] \<Rightarrow> None
      | b # bs \<Rightarrow> Some (b, write_batch W (s\<lparr>sendChan := bs\<rparr>) b))"

text \<open>
  The loop \<^verbatim>\<open>for { ... }\<close> never returns. Its first \<open>n\<close> iterations, stopping where the
  receive blocks: the calls of \<^verbatim>\<open>Write\<close> in order with their results, the lines logged,
  and the sink.
\<close>

fun sendWorker ::
  "('p, 'c) Write \<Rightarrow> nat \<Rightarrow> ('p, 'c) InfluxSink
     \<Rightarrow> ('p BatchPoints \<times> error option) list \<times> string list \<times> ('p, 'c) InfluxSink" where
  "sendWorker W 0 s = ([], [], s)"
| "sendWorker W (Suc n) s =
     (case sendWorker_iter W s of
        None \<Rightarrow> ([], [], s)
      | Some (b, r, lines, s') \<Rightarrow>
          (case sendWorker W n s' of (ws, ls, s'') \<Rightarrow> ((b, r) # ws, lines @ ls, s'')))"

subsection \<open>tickWorker\<close>

text \<open>
  One iteration after the ticker has fired, from \<^verbatim>\<open>Lock\<close> to \<^verbatim>\<open>Unlock\<close>, with the send
  on the channel gone through (the send blocks while the channel is full; the system
  below has the blocking).
\<close>

definition tickWorker_iter :: "('p, 'c) InfluxSink \<Rightarrow> ('p, 'c) InfluxSink" where
  "tickWorker_iter s =
     (if length (Points (batch s)) \<noteq> 0
      then newBatch (s\<lparr>sendChan := sendChan s @ [batch s]\<rparr>)
      else s)"

subsection \<open>The workers running together\<close>

text \<open>
  The two workers and the callers of Push run concurrently. The system's state is the
  sink, the mutex \<^verbatim>\<open>batchMu\<close>, the statement each worker is at, and three records of what
  has happened: the batches the tick worker has handed off (\<open>closed\<close>), the calls of
  \<^verbatim>\<open>Write\<close> with their results (\<open>writes\<close>) and the lines logged, each in order.

  The tick worker is at one of its statements: waiting for the ticker, \<^verbatim>\<open>Lock\<close>, the
  emptiness check, the send on the channel, \<^verbatim>\<open>newBatch\<close>, \<^verbatim>\<open>Unlock\<close>. The send worker
  is at its receive, or inside \<^verbatim>\<open>client.Write(b)\<close> with the batch it received.
\<close>

datatype tick_pc = TTimer | TLock | TCheck | TSend | TNewBatch | TUnlock

datatype 'p send_pc = SRecv | SWrite "'p BatchPoints"

record ('p, 'c) system =
  sink :: "('p, 'c) InfluxSink"
  batchMu :: bool
  tick_pc :: tick_pc
  send_pc :: "'p send_pc"
  closed :: "'p BatchPoints list"
  writes :: "('p BatchPoints \<times> error option) list"
  logged :: "string list"

text \<open>
  A move of the system: a call of Push with a point, one statement of the tick worker, or
  one statement of the send worker. A move that cannot be made in a state (a blocked
  \<^verbatim>\<open>Lock\<close>, send or receive) gives \<open>None\<close>.
\<close>

datatype 'p move = MPush 'p | MTick | MSend

text \<open>
  Go's channel send, for a channel of capacity \<open>cap\<close> (the channel is made outside the
  sources; 0 is an unbuffered channel): the value goes to a receiver that is waiting, or
  into the buffer when it has room; otherwise the sender blocks.
\<close>

definition chan_send ::
  "nat \<Rightarrow> ('p, 'c) system \<Rightarrow> 'p BatchPoints \<Rightarrow> ('p, 'c) system option" where
  "chan_send cap s b =
     (if send_pc s = SRecv \<and> sendChan (sink s) = [] then Some (s\<lparr>send_pc := SWrite b\<rparr>)
      else if length (sendChan (sink s)) < cap
      then Some (s\<lparr>sink := (sink s)\<lparr>sendChan := sendChan (sink s) @ [b]\<rparr>\<rparr>)
      else None)"

definition tick_step :: "nat \<Rightarrow> ('p, 'c) system \<Rightarrow> ('p, 'c) system option" where
  "tick_step cap s =
     (case tick_pc s of
        TTimer \<Rightarrow> Some (s\<lparr>tick_pc := TLock\<rparr>)
      | TLock \<Rightarrow> (if batchMu s then None else Some (s\<lparr>batchMu := True, tick_pc := TCheck\<rparr>))
      | TCheck \<Rightarrow>
          (if length (Points (batch (sink s))) \<noteq> 0 then Some (s\<lparr>tick_pc := TSend\<rparr>)
           else Some (s\<lparr>tick_pc := TUnlock\<rparr>))
      | TSend \<Rightarrow>
          (case chan_send cap s (batch (sink s)) of
             None \<Rightarrow> None
           | Some s' \<Rightarrow>
               Some (s'\<lparr>closed := closed s' @ [batch (sink s)], tick_pc := TNewBatch\<rparr>))
      | TNewBatch \<Rightarrow> Some (s\<lparr>sink := newBatch (sink s), tick_pc := TUnlock\<rparr>)
      | TUnlock \<Rightarrow> Some (s\<lparr>batchMu := False, tick_pc := TTimer\<rparr>))"

definition send_step :: "('p, 'c) Write \<Rightarrow> ('p, 'c) system \<Rightarrow> ('p, 'c) system option" where
  "send_step W s =
     (case send_pc s of
        SRecv \<Rightarrow>
          (case sendChan (sink s) of
             [] \<Rightarrow> None
           | b # bs \<Rightarrow> Some (s\<lparr>sink := (sink s)\<lparr>sendChan := bs\<rparr>, send_pc := SWrite b\<rparr>))
      | SWrite b \<Rightarrow>
          (case write_batch W (sink s) b of
             (r, lines, k) \<Rightarrow>
               Some (s\<lparr>sink := k, send_pc := SRecv, writes := writes s @ [(b, r)],
                       logged := logged s @ lines\<rparr>)))"

text \<open>Push takes the lock for its append, so it waits while the tick worker holds it.\<close>

definition push_step :: "('p, 'c) system \<Rightarrow> 'p \<Rightarrow> ('p, 'c) system option" where
  "push_step s p = (if batchMu s then None else Some (s\<lparr>sink := Influx_Push (sink s) p\<rparr>))"

fun step :: "nat \<Rightarrow> ('p, 'c) Write \<Rightarrow> ('p, 'c) system \<Rightarrow> 'p move \<Rightarrow> ('p, 'c) system option" where
  "step cap W s (MPush p) = push_step s p"
| "step cap W s MTick = tick_step cap s"
| "step cap W s MSend = send_step W s"

fun run ::
  "nat \<Rightarrow> ('p, 'c) Write \<Rightarrow> ('p, 'c) system \<Rightarrow> 'p move list \<Rightarrow> ('p, 'c) system option" where
  "run cap W s [] = Some s"
| "run cap W s (m # ms) = (case step cap W s m of None \<Rightarrow> None | Some s' \<Rightarrow> run cap W s' ms)"

text \<open>
  Modelled from the spec: the sink when its workers start. \<^verbatim>\<open>Init\<close> of the batching
  sink is not among the sources; the spec has it capture the configuration, allocate the
  batch and start one tick worker and one send worker.
\<close>

definition started :: "SinkConfig \<Rightarrow> 'c \<Rightarrow> ('p, 'c) system" where
  "started sc c =
     \<lparr>sink = \<lparr>config = sc, client = c, batch = \<lparr>Points = []\<rparr>, sendChan = [],
              stats = SinkStats_zero\<rparr>,
      batchMu = False, tick_pc = TTimer, send_pc = SRecv, closed = [], writes = [],
      logged = []\<rparr>"

text \<open>
  The batch the send worker holds, the batches delivered and dropped among the writes,
  and the two invariants of the system: every batch handed off is written, held by the
  send worker or still in the channel, in the order of the hand-offs; and the lock is held
  exactly from the tick worker's check to its \<^verbatim>\<open>Unlock\<close>.
\<close>

definition inflight :: "'p send_pc \<Rightarrow> 'p BatchPoints list" where
  "inflight pc = (case pc of SRecv \<Rightarrow> [] | SWrite b \<Rightarrow> [b])"

definition delivered :: "('p BatchPoints \<times> error option) list \<Rightarrow> 'p BatchPoints list" where
  "delivered ws = map fst (filter (\<lambda>w. snd w = None) ws)"

definition dropped :: "('p BatchPoints \<times> error option) list \<Rightarrow> 'p BatchPoints list" where
  "dropped ws = map fst (filter (\<lambda>w. snd w \<noteq> None) ws)"

definition handoff_inv :: "('p, 'c) system \<Rightarrow> bool" where
  "handoff_inv s =
     (closed s = map fst (writes s) @ inflight (send_pc s) @ sendChan (sink s))"

definition lock_inv :: "('p, 'c) system \<Rightarrow> bool" where
  "lock_inv s = (batchMu s = (tick_pc s \<in> {TCheck, TSend, TNewBatch, TUnlock}))"

text \<open>
  The send of the tick worker can go through: the buffer has room or the send worker is
  waiting at its receive. The tick worker's own moves from a statement of its critical
  section to the end of \<^verbatim>\<open>Unlock\<close>, and what it means that a run ends unlocked.
\<close>

definition room :: "nat \<Rightarrow> ('p, 'c) system \<Rightarrow> bool" where
  "room cap s =
     (length (sendChan (sink s)) < cap \<or> (send_pc s = SRecv \<and> sendChan (sink s) = []))"

definition critical_section :: "('p, 'c) system \<Rightarrow> 'p move list" where
  "critical_section s =
     (case tick_pc s of
        TCheck \<Rightarrow>
          (if length (Points (batch (sink s))) \<noteq> 0 then [MTick, MTick, MTick, MTick]
           else [MTick, MTick])
      | TSend \<Rightarrow> [MTick, MTick, MTick]
      | TNewBatch \<Rightarrow> [MTick, MTick]
      | TUnlock \<Rightarrow> [MTick]
      | _ \<Rightarrow> [])"

definition unlocked_after :: "('p, 'c) system option \<Rightarrow> bool" where
  "unlocked_after r = (case r of None \<Rightarrow> False | Some s \<Rightarrow> \<not> batchMu s \<and> tick_pc s = TTimer)"

text \<open>
  A backend that fails every other write, starting with a failure, and the moves of one
  push followed by a whole iteration of the tick worker.
\<close>

definition flaky :: "(nat, bool) Write" where
  "flaky c b = (if c then (None, False) else (Some ''down'', True))"

definition push_and_tick :: "nat \<Rightarrow> nat move list" where
  "push_and_tick p = [MPush p, MTick, MTick, MTick, MTick, MTick, MTick]"

text \<open>
  States of the system used as examples below: a sink with two batches waiting in the
  channel, the system around it before and after the send worker has received the first
  of them, and three states the system reaches from its start.
\<close>

definition queued :: "(nat, bool) InfluxSink" where
  "queued =
     \<lparr>config = SinkConfig_zero, client = False, batch = \<lparr>Points = [3]\<rparr>,
      sendChan = [\<lparr>Points = [1]\<rparr>, \<lparr>Points = [2]\<rparr>], stats = SinkStats_zero\<rparr>"

definition queued_system :: "(nat, bool) system" where
  "queued_system = (started SinkConfig_zero False)\<lparr>sink := queued\<rparr>"

definition queued_writing :: "(nat, bool) system" where
  "queued_writing =
     queued_system\<lparr>sink := queued\<lparr>sendChan := [\<lparr>Points = [2]\<rparr>]\<rparr>,
                   send_pc := SWrite \<lparr>Points = [1]\<rparr>\<rparr>"

definition at_check :: "(nat, bool) system" where
  "at_check =
     \<lparr>sink = \<lparr>config = SinkConfig_zero, client = False, batch = \<lparr>Points = [1]\<rparr>,
              sendChan = [],
              stats = \<lparr>eventsPushed = 1, batchesSent = 0, batchesDropped = 0\<rparr>\<rparr>,
      batchMu = True, tick_pc = TCheck, send_pc = SRecv, closed = [], writes = [],
      logged = []\<rparr>"

definition blocked_unbuffered :: "(nat, bool) system" where
  "blocked_unbuffered =
     \<lparr>sink = \<lparr>config = SinkConfig_zero, client = False, batch = \<lparr>Points = [2]\<rparr>,
              sendChan = [],
              stats = \<lparr>eventsPushed = 2, batchesSent = 0, batchesDropped = 0\<rparr>\<rparr>,
      batchMu = True, tick_pc = TSend, send_pc = SWrite \<lparr>Points = [1]\<rparr>,
      closed = [\<lparr>Points = [1]\<rparr>], writes = [], logged = []\<rparr>"

definition blocked_buffered :: "(nat, bool) system" where
  "blocked_buffered =
     \<lparr>sink = \<lparr>config = SinkConfig_zero, client = False, batch = \<lparr>Points = [3]\<rparr>,
              sendChan = [\<lparr>Points = [2]\<rparr>],
              stats = \<lparr>eventsPushed = 3, batchesSent = 0, batchesDropped = 0\<rparr>\<rparr>,
      batchMu = True, tick_pc = TSend, send_pc = SWrite \<lparr>Points = [1]\<rparr>,
      closed = [\<lparr>Points = [1]\<rparr>, \<lparr>Points = [2]\<rparr>], writes = [], logged = []\<rparr>"

definition three_batches :: "(nat, bool) system" where
  "three_batches =
     \<lparr>sink = \<lparr>config = SinkConfig_zero, client = False, batch = \<lparr>Points = []\<rparr>,
              sendChan = [],
              stats = \<lparr>eventsPushed = 3, batchesSent = 1, batchesDropped = 1\<rparr>\<rparr>,
      batchMu = False, tick_pc = TTimer, send_pc = SWrite \<lparr>Points = [3]\<rparr>,
      closed = [\<lparr>Points = [1]\<rparr>, \<lparr>Points = [2]\<rparr>, \<lparr>Points = [3]\<rparr>],
      writes = [(\<lparr>Points = [1]\<rparr>, Some ''down''), (\<lparr>Points = [2]\<rparr>, None)],
      logged = [Errorf [] ''down'']\<rparr>"

section \<open>The Dummy sink (internal/sinks/dummy/dummy.go)\<close>

record Dummy =
  init :: bool
  config :: SinkConfig
  stats :: SinkStats

text \<open>\<^verbatim>\<open>New\<close> returns \<^verbatim>\<open>Dummy{}\<close>, the zero value.\<close>

definition New :: Dummy where
  "New = \<lparr>init = False, config = SinkConfig_zero, stats = SinkStats_zero\<rparr>"

text \<open>
  The methods have pointer receivers and mutate the sink in place: each takes the sink and
  returns it updated, next to the method's own result where it has one.
\<close>

definition Init :: "Dummy \<Rightarrow> SinkConfig \<Rightarrow> error option \<times> Dummy" where
  "Init d sc = (None, d\<lparr>config := sc, init := True\<rparr>)"

definition Push :: "Dummy \<Rightarrow> Event \<Rightarrow> Dummy" where
  "Push d e = d\<lparr>stats := IncrBatchDropped (IncrEventsPushed (stats d))\<rparr>"

definition Name_of :: "Dummy \<Rightarrow> string" where
  "Name_of d = Name (config d)"

definition IsInit :: "Dummy \<Rightarrow> bool" where
  "IsInit d = init d"

definition WantUpdate :: "Dummy \<Rightarrow> bool" where
  "WantUpdate d = True"

definition WantDestroy :: "Dummy \<Rightarrow> bool" where
  "WantDestroy d = True"

definition Stats :: "Dummy \<Rightarrow> SinkStats" where
  "Stats d = Get (stats d)"

text \<open>
  A client of the sink calls its methods in any order. One call, with the value it returns,
  and a sequence of calls on a sink made by \<^verbatim>\<open>New\<close>.
\<close>

datatype call =
  CallInit SinkConfig
  | CallPush Event
  | CallName
  | CallIsInit
  | CallWantUpdate
  | CallWantDestroy
  | CallStats

datatype result =
  RetError "error option"
  | RetUnit
  | RetString string
  | RetBool bool
  | RetStats SinkStats

fun do_call :: "Dummy \<Rightarrow> call \<Rightarrow> result \<times> Dummy" where
  "do_call d (CallInit sc) = (case Init d sc of (e, d') \<Rightarrow> (RetError e, d'))"
| "do_call d (CallPush e) = (RetUnit, Push d e)"
| "do_call d CallName = (RetString (Name_of d), d)"
| "do_call d CallIsInit = (RetBool (IsInit d), d)"
| "do_call d CallWantUpdate = (RetBool (WantUpdate d), d)"
| "do_call d CallWantDestroy = (RetBool (WantDestroy d), d)"
| "do_call d CallStats = (RetStats (Stats d), d)"

fun do_calls :: "Dummy \<Rightarrow> call list \<Rightarrow> Dummy" where
  "do_calls d [] = d"
| "do_calls d (c # cs) = do_calls (snd (do_call d c)) cs"

section \<open>The sampling policy and the integration test (package bpf)\<close>

text \<open>
  Modelled from the spec: the sampling policy. It runs in the kernel-side program, which
  is not among the sources. The spec (4.2) has it decide from the flow's running packet
  count and the time of the flow's previous report: up to the burst threshold of 32
  packets the count decides alone; after it, a packet is reported when the cooldown has
  elapsed since the previous report. Which counts the burst reports is the parameter
  \<open>burst\<close>; the arguments of the policy are the count, the time of the previous report
  and the time of the packet.
\<close>

type_synonym policy = "nat \<Rightarrow> nat \<Rightarrow> nat \<Rightarrow> bool"

definition should_report :: "(nat \<Rightarrow> bool) \<Rightarrow> nat \<Rightarrow> policy" where
  "should_report burst cooldown n lastrep now =
     (if n \<le> 32 then burst n else lastrep + cooldown \<le> now)"


text \<open>
  The burst counts the integration test names: "logging packet 1, 2, 8 and 32 of a flow".
\<close>

definition burst_test :: "nat \<Rightarrow> bool" where
  "burst_test n = (n \<in> {1, 2, 8, 32})"

text \<open>
  Modelled from the spec: a flow in the kernel, its cumulative packet count over both
  directions and the time of its previous report, and what a packet at time \<open>now\<close> does
  to it: whether an Update is reported, and the flow afterwards.
\<close>

record flow =
  pkts :: nat
  last_report :: nat

definition on_packet :: "policy \<Rightarrow> flow \<Rightarrow> nat \<Rightarrow> bool \<times> flow" where
  "on_packet pol f now =
     (if pol (pkts f + 1) (last_report f) now
      then (True, \<lparr>pkts = pkts f + 1, last_report = now\<rparr>)
      else (False, f\<lparr>pkts := pkts f + 1\<rparr>))"

text \<open>
  The Updates of a flow driven packet by packet, the packets arriving at the given times:
  each Update with its time and its cumulative packet count.
\<close>

fun updates :: "policy \<Rightarrow> flow \<Rightarrow> nat list \<Rightarrow> (nat \<times> nat) list" where
  "updates pol f [] = []"
| "updates pol f (t # ts) =
     (case on_packet pol f t of
        (True, f') \<Rightarrow> (t, pkts f') # updates pol f' ts
      | (False, f') \<Rightarrow> updates pol f' ts)"

text \<open>
  Every Update after the burst (a count above 32) comes at least the cooldown after the
  Update before it.
\<close>

fun spaced :: "nat \<Rightarrow> (nat \<times> nat) list \<Rightarrow> bool" where
  "spaced c (e1 # e2 # es) = ((snd e2 \<le> 32 \<or> fst e1 + c \<le> fst e2) \<and> spaced c (e2 # es))"
| "spaced c es = True"

subsection \<open>The integration test\<close>


record harness =
  port :: "16 word"
  tuple :: Event
  orig :: nat
  ret :: nat
  lastrep :: nat
  clock :: nat
  out :: "Event list"














section \<open>Properties of the sink types\<close>

lemma SinkType_consts_eq:
  "SinkType_consts = [(''StdIO'', 0), (''InfluxUDP'', 1), (''InfluxHTTP'', 2), (''Elastic'', 3)]"
  by (simp add: SinkType_consts_def)

text \<open>
  C3, as the code has it: the const block declares exactly the four sink types StdIO,
  InfluxUDP, InfluxHTTP and Elastic, with the distinct values 0, 1, 2 and 3, and no
  constant named Dummy.
\<close>

theorem SinkType_enum_four:
  "map fst SinkType_consts = [''StdIO'', ''InfluxUDP'', ''InfluxHTTP'', ''Elastic'']
   \<and> map snd SinkType_consts = [StdIO, InfluxUDP, InfluxHTTP, Elastic]
   \<and> distinct (map snd SinkType_consts)
   \<and> map_of SinkType_consts ''Dummy'' = None"
  by (simp add: SinkType_consts_eq StdIO_def InfluxUDP_def InfluxHTTP_def Elastic_def)

text \<open>
  C3, as the claim states it, fails: the declared sink types are not the five names
  StdIO, InfluxUDP, InfluxHTTP, Elastic and Dummy.
\<close>

theorem SinkType_enum_no_Dummy:
  "set (map fst SinkType_consts)
     \<noteq> {''StdIO'', ''InfluxUDP'', ''InfluxHTTP'', ''Elastic'', ''Dummy''}"
proof -
  have "''Dummy'' \<notin> set (map fst SinkType_consts)"
    by (simp add: SinkType_consts_eq)
  then show ?thesis by blast
qed

section \<open>Properties of the Dummy sink\<close>

lemma stats_Push:
  "stats (Push d e) =
     \<lparr>eventsPushed = eventsPushed (stats d) + 1, batchesSent = batchesSent (stats d),
      batchesDropped = batchesDropped (stats d) + 1\<rparr>"
  by (simp add: Push_def IncrEventsPushed_def IncrBatchDropped_def)

text \<open>
  C8: a call of Push on the Dummy sink adds one to eventsPushed and one to batchesDropped,
  leaves batchesSent, the configuration and the init flag alone, and has no error result
  (the model's Push returns the sink and nothing else, as the Go method returns nothing).
\<close>

theorem Dummy_Push_counts:
  "eventsPushed (Stats (Push d e)) = eventsPushed (Stats d) + 1
   \<and> batchesDropped (Stats (Push d e)) = batchesDropped (Stats d) + 1
   \<and> batchesSent (Stats (Push d e)) = batchesSent (Stats d)
   \<and> config (Push d e) = config d
   \<and> init (Push d e) = init d
   \<and> do_call d (CallPush e) = (RetUnit, Push d e)"
  by (simp add: Stats_def Get_def stats_Push) (simp add: Push_def)

lemma stats_do_call_inv:
  assumes "eventsPushed (stats d) = batchesDropped (stats d)" and "batchesSent (stats d) = 0"
  shows "eventsPushed (stats (snd (do_call d c))) = batchesDropped (stats (snd (do_call d c)))
         \<and> batchesSent (stats (snd (do_call d c))) = 0"
  using assms by (cases c) (simp_all add: Init_def stats_Push)

lemma stats_do_calls_inv:
  assumes "eventsPushed (stats d) = batchesDropped (stats d)" and "batchesSent (stats d) = 0"
  shows "eventsPushed (stats (do_calls d cs)) = batchesDropped (stats (do_calls d cs))
         \<and> batchesSent (stats (do_calls d cs)) = 0"
  using assms
proof (induction cs arbitrary: d)
  case Nil
  then show ?case by simp
next
  case (Cons c cs)
  from stats_do_call_inv [OF Cons.prems, of c] show ?case
    by (simp add: Cons.IH)
qed

text \<open>
  C9: after any sequence of calls on a sink made by New, the statistics snapshot has
  eventsPushed equal to batchesDropped and batchesSent equal to zero.
\<close>

theorem Dummy_stats_invariant:
  "eventsPushed (Stats (do_calls New cs)) = batchesDropped (Stats (do_calls New cs))
   \<and> batchesSent (Stats (do_calls New cs)) = 0"
proof -
  have "eventsPushed (stats New) = batchesDropped (stats New)" and "batchesSent (stats New) = 0"
    by (simp_all add: New_def SinkStats_zero_def)
  from stats_do_calls_inv [OF this, of cs] show ?thesis
    by (simp add: Stats_def Get_def)
qed

lemma init_config_Push: "init (Push d e) = init d \<and> config (Push d e) = config d"
  by (simp add: Push_def)

lemma init_config_pushes:
  "init (foldl Push d es) = init d \<and> config (foldl Push d es) = config d"
  by (induction es arbitrary: d) (simp_all add: init_config_Push)

text \<open>
  C10: a sink made by New, also after any number of pushes, is not initialised and has the
  empty name; Init returns nil for every configuration, and afterwards the sink is
  initialised and its name is the configuration's.
\<close>

theorem Dummy_Init_Name:
  "IsInit (foldl Push New es) = False
   \<and> Name_of (foldl Push New es) = []
   \<and> fst (Init d sc) = None
   \<and> IsInit (snd (Init d sc)) = True
   \<and> Name_of (snd (Init d sc)) = Name sc"
  by (simp add: IsInit_def Name_of_def init_config_pushes)
    (simp add: New_def SinkConfig_zero_def Init_def)

section \<open>Properties of the tick worker\<close>

lemma tickWorker_iter_empty: "Points (batch s) = [] \<Longrightarrow> tickWorker_iter s = s"
  by (simp add: tickWorker_iter_def)

lemma tickWorker_iter_handoff:
  "Points (batch s) \<noteq> [] \<Longrightarrow>
     tickWorker_iter s = s\<lparr>sendChan := sendChan s @ [batch s], batch := \<lparr>Points = []\<rparr>\<rparr>"
  by (simp add: tickWorker_iter_def newBatch_def)

lemma tick_round_empty:
  assumes "tick_pc y = TTimer" and "\<not> batchMu y" and "Points (batch (sink y)) = []"
  shows "run cap W y [MTick, MTick, MTick, MTick] = Some y"
  using assms by (simp add: tick_step_def)

text \<open>
  C5: on a tick with an empty batch the iteration changes nothing, neither the channel nor
  a counter, and in the running system the tick worker's four statements (ticker, Lock,
  check, Unlock) leave the whole state as it was: no hand-off and no write. On a tick with
  a non-empty batch the batch is appended to the hand-off channel and the active batch is
  a new empty one. The counters are the same after every tick.
\<close>

theorem tick_empty_or_handoff:
  "(Points (batch s) = [] \<longrightarrow> tickWorker_iter s = s)
   \<and> (Points (batch s) \<noteq> [] \<longrightarrow>
        sendChan (tickWorker_iter s) = sendChan s @ [batch s]
        \<and> Points (batch (tickWorker_iter s)) = [])
   \<and> InfluxSink.stats (tickWorker_iter s) = InfluxSink.stats s
   \<and> (tick_pc y = TTimer \<and> \<not> batchMu y \<and> Points (batch (sink y)) = [] \<longrightarrow>
        run cap W y [MTick, MTick, MTick, MTick] = Some y)"
  using tick_round_empty [of y cap W]
  by (simp add: tickWorker_iter_def newBatch_def)

theorem tick_empty_or_handoff_witness:
  "tickWorker_iter (sink (started SinkConfig_zero False :: (nat, bool) system))
     = sink (started SinkConfig_zero False)
   \<and> sendChan (tickWorker_iter (Influx_Push (sink (started SinkConfig_zero False)) (7::nat)))
       = [\<lparr>Points = [7]\<rparr>]
   \<and> Points (batch (tickWorker_iter (Influx_Push (sink (started SinkConfig_zero False)) (7::nat))))
       = []
   \<and> run 1 flaky (started SinkConfig_zero False) [MTick, MTick, MTick, MTick]
       = Some (started SinkConfig_zero False)"
  using tick_empty_or_handoff
      [of "sink (started SinkConfig_zero False :: (nat, bool) system)"
        "started SinkConfig_zero False" 1 flaky]
    tick_empty_or_handoff
      [of "Influx_Push (sink (started SinkConfig_zero False :: (nat, bool) system)) 7"
        "started SinkConfig_zero False" 1 flaky]
  by (simp add: started_def Influx_Push_def)

section \<open>Properties of the send worker\<close>

lemma write_batch_fail:
  "W (client s) b = (Some err, c) \<Longrightarrow>
     write_batch W s b =
       (Some err, [Errorf (Name (InfluxSink.config s)) err],
        s\<lparr>client := c, InfluxSink.stats := IncrBatchDropped (InfluxSink.stats s)\<rparr>)"
  by (simp add: write_batch_def)

lemma write_batch_ok:
  "W (client s) b = (None, c) \<Longrightarrow>
     write_batch W s b = (None, [], s\<lparr>client := c, InfluxSink.stats := IncrBatchSent (InfluxSink.stats s)\<rparr>)"
  by (simp add: write_batch_def)

lemma write_batch_frame:
  assumes "write_batch W s b = (r, lines, s')"
  shows "r = fst (W (client s) b)" "client s' = snd (W (client s) b)"
    "sendChan s' = sendChan s" "batch s' = batch s" "InfluxSink.config s' = InfluxSink.config s"
    "eventsPushed (InfluxSink.stats s') = eventsPushed (InfluxSink.stats s)"
    "batchesSent (InfluxSink.stats s')
       = batchesSent (InfluxSink.stats s) + (if r = None then 1 else 0)"
    "batchesDropped (InfluxSink.stats s')
       = batchesDropped (InfluxSink.stats s) + (if r = None then 0 else 1)"
    "lines = (case r of None \<Rightarrow> [] | Some err \<Rightarrow> [Errorf (Name (InfluxSink.config s)) err])"
  using assms
  by (auto simp: write_batch_def IncrBatchDropped_def IncrBatchSent_def
      split: prod.splits option.splits)

lemma sendWorker_all:
  "length (sendChan s) \<le> n \<Longrightarrow>
     map fst (fst (sendWorker W n s)) = sendChan s
     \<and> sendChan (snd (snd (sendWorker W n s))) = []
     \<and> batch (snd (snd (sendWorker W n s))) = batch s
     \<and> eventsPushed (InfluxSink.stats (snd (snd (sendWorker W n s))))
         = eventsPushed (InfluxSink.stats s)
     \<and> batchesSent (InfluxSink.stats (snd (snd (sendWorker W n s))))
         = batchesSent (InfluxSink.stats s) + of_nat (length (delivered (fst (sendWorker W n s))))
     \<and> batchesDropped (InfluxSink.stats (snd (snd (sendWorker W n s))))
         = batchesDropped (InfluxSink.stats s) + of_nat (length (dropped (fst (sendWorker W n s))))"
proof (induction n arbitrary: s)
  case 0
  then show ?case by (simp add: delivered_def dropped_def)
next
  case (Suc n)
  show ?case
  proof (cases "sendChan s")
    case Nil
    then show ?thesis by (simp add: sendWorker_iter_def delivered_def dropped_def)
  next
    case (Cons b bs)
    obtain r lines s' where w: "write_batch W (s\<lparr>sendChan := bs\<rparr>) b = (r, lines, s')"
      by (cases "write_batch W (s\<lparr>sendChan := bs\<rparr>) b") auto
    note f = write_batch_frame [OF w]
    have len: "length (sendChan s') \<le> n" using Suc.prems Cons f(3) by simp
    obtain ws ls s'' where rec: "sendWorker W n s' = (ws, ls, s'')"
      by (cases "sendWorker W n s'") auto
    have step: "sendWorker W (Suc n) s = ((b, r) # ws, lines @ ls, s'')"
      by (simp add: sendWorker_iter_def Cons w rec)
    from Suc.IH [OF len] rec f Cons show ?thesis
      unfolding step by (cases r) (simp_all add: delivered_def dropped_def)
  qed
qed

lemma send_step_frame:
  assumes "send_step W s = Some s'"
  shows "batchMu s' = batchMu s" "tick_pc s' = tick_pc s" "batch (sink s') = batch (sink s)"
    "eventsPushed (InfluxSink.stats (sink s')) = eventsPushed (InfluxSink.stats (sink s))"
proof -
  have "batchMu s' = batchMu s \<and> tick_pc s' = tick_pc s \<and> batch (sink s') = batch (sink s)
        \<and> eventsPushed (InfluxSink.stats (sink s')) = eventsPushed (InfluxSink.stats (sink s))"
  proof (cases "send_pc s")
    case SRecv
    then show ?thesis
      using assms by (auto simp: send_step_def split: list.splits)
  next
    case (SWrite b)
    obtain r lines k where w: "write_batch W (sink s) b = (r, lines, k)"
      by (cases "write_batch W (sink s) b") auto
    from write_batch_frame(4,6) [OF w] show ?thesis
      using assms SWrite w by (auto simp: send_step_def)
  qed
  then show "batchMu s' = batchMu s" "tick_pc s' = tick_pc s" "batch (sink s') = batch (sink s)"
    "eventsPushed (InfluxSink.stats (sink s')) = eventsPushed (InfluxSink.stats (sink s))"
    by simp_all
qed

lemma sendWorker_iter_head:
  assumes "sendChan s = b # bs" and "W (client s) b = (r, c)"
  shows "sendWorker_iter W s =
     Some (b, r, (case r of None \<Rightarrow> [] | Some err \<Rightarrow> [Errorf (Name (InfluxSink.config s)) err]),
           s\<lparr>sendChan := bs, client := c,
              InfluxSink.stats := (if r = None then IncrBatchSent (InfluxSink.stats s)
                                    else IncrBatchDropped (InfluxSink.stats s))\<rparr>)"
  using assms by (cases r) (simp_all add: sendWorker_iter_def write_batch_def)

lemma sendWorker_iter_counts:
  assumes "sendChan s = b # bs" and "W (client s) b = (r, c)"
  shows "case sendWorker_iter W s of
           None \<Rightarrow> False
         | Some (b', r', lines, s') \<Rightarrow>
             b' = b \<and> r' = r \<and> sendChan s' = bs \<and> batch s' = batch s
             \<and> eventsPushed (InfluxSink.stats s') = eventsPushed (InfluxSink.stats s)
             \<and> (r \<noteq> None \<longrightarrow>
                  batchesDropped (InfluxSink.stats s') = batchesDropped (InfluxSink.stats s) + 1
                  \<and> batchesSent (InfluxSink.stats s') = batchesSent (InfluxSink.stats s)
                  \<and> length lines = 1)
             \<and> (r = None \<longrightarrow>
                  batchesSent (InfluxSink.stats s') = batchesSent (InfluxSink.stats s) + 1
                  \<and> batchesDropped (InfluxSink.stats s') = batchesDropped (InfluxSink.stats s)
                  \<and> lines = [])"
  unfolding sendWorker_iter_head [of s b bs W r c, OF assms]
  by (cases r) (simp_all add: IncrBatchSent_def IncrBatchDropped_def)

lemma send_step_push:
  assumes "send_step W y = Some y'"
  shows "batch (sink y') = batch (sink y) \<and> batchMu y' = batchMu y
         \<and> eventsPushed (InfluxSink.stats (sink y')) = eventsPushed (InfluxSink.stats (sink y))
         \<and> (push_step y' p = None) = (push_step y p = None)"
  using send_step_frame [OF assms] by (simp add: push_step_def)

text \<open>
  C4: an iteration of the send worker takes the oldest batch off the channel and writes
  it. If the write fails, batchesDropped grows by one, batchesSent stays, one line is
  logged, and the batch is gone: it is in neither the channel nor the active batch
  afterwards. If the write succeeds, batchesSent grows by one and batchesDropped stays.
  Either way the worker goes on: given as many iterations as the channel holds batches it
  writes every one of them exactly once, in the channel's order, whatever the writes
  return, and the counters grow by the numbers of delivered and dropped batches. A step
  of the send worker never touches the active batch, the lock or eventsPushed, and Push
  is enabled after it exactly when it was before: no error reaches the ingestion path.
\<close>

theorem send_drop_accounting:
  "(sendChan s = b # bs \<and> W (client s) b = (r, c) \<longrightarrow>
      (case sendWorker_iter W s of
         None \<Rightarrow> False
       | Some (b', r', lines, s') \<Rightarrow>
           b' = b \<and> r' = r \<and> sendChan s' = bs \<and> batch s' = batch s
           \<and> eventsPushed (InfluxSink.stats s') = eventsPushed (InfluxSink.stats s)
           \<and> (r \<noteq> None \<longrightarrow>
                batchesDropped (InfluxSink.stats s') = batchesDropped (InfluxSink.stats s) + 1
                \<and> batchesSent (InfluxSink.stats s') = batchesSent (InfluxSink.stats s)
                \<and> length lines = 1)
           \<and> (r = None \<longrightarrow>
                batchesSent (InfluxSink.stats s') = batchesSent (InfluxSink.stats s) + 1
                \<and> batchesDropped (InfluxSink.stats s') = batchesDropped (InfluxSink.stats s)
                \<and> lines = [])))
   \<and> (length (sendChan s) \<le> n \<longrightarrow>
        map fst (fst (sendWorker W n s)) = sendChan s
        \<and> sendChan (snd (snd (sendWorker W n s))) = []
        \<and> batch (snd (snd (sendWorker W n s))) = batch s
        \<and> batchesSent (InfluxSink.stats (snd (snd (sendWorker W n s))))
            = batchesSent (InfluxSink.stats s)
              + of_nat (length (delivered (fst (sendWorker W n s))))
        \<and> batchesDropped (InfluxSink.stats (snd (snd (sendWorker W n s))))
            = batchesDropped (InfluxSink.stats s)
              + of_nat (length (dropped (fst (sendWorker W n s)))))
   \<and> (send_step W y = Some y' \<longrightarrow>
        batch (sink y') = batch (sink y) \<and> batchMu y' = batchMu y
        \<and> eventsPushed (InfluxSink.stats (sink y')) = eventsPushed (InfluxSink.stats (sink y))
        \<and> (push_step y' p = None) = (push_step y p = None))"
proof (intro conjI impI)
  assume "sendChan s = b # bs \<and> W (client s) b = (r, c)"
  then show "case sendWorker_iter W s of
         None \<Rightarrow> False
       | Some (b', r', lines, s') \<Rightarrow>
           b' = b \<and> r' = r \<and> sendChan s' = bs \<and> batch s' = batch s
           \<and> eventsPushed (InfluxSink.stats s') = eventsPushed (InfluxSink.stats s)
           \<and> (r \<noteq> None \<longrightarrow>
                batchesDropped (InfluxSink.stats s') = batchesDropped (InfluxSink.stats s) + 1
                \<and> batchesSent (InfluxSink.stats s') = batchesSent (InfluxSink.stats s)
                \<and> length lines = 1)
           \<and> (r = None \<longrightarrow>
                batchesSent (InfluxSink.stats s') = batchesSent (InfluxSink.stats s) + 1
                \<and> batchesDropped (InfluxSink.stats s') = batchesDropped (InfluxSink.stats s)
                \<and> lines = [])"
    using sendWorker_iter_counts [of s b bs W r c] by simp
next
  assume "length (sendChan s) \<le> n"
  from sendWorker_all [OF this, of W]
  show "map fst (fst (sendWorker W n s)) = sendChan s"
    and "sendChan (snd (snd (sendWorker W n s))) = []"
    and "batch (snd (snd (sendWorker W n s))) = batch s"
    and "batchesSent (InfluxSink.stats (snd (snd (sendWorker W n s))))
            = batchesSent (InfluxSink.stats s)
              + of_nat (length (delivered (fst (sendWorker W n s))))"
    and "batchesDropped (InfluxSink.stats (snd (snd (sendWorker W n s))))
            = batchesDropped (InfluxSink.stats s)
              + of_nat (length (dropped (fst (sendWorker W n s))))"
    by simp_all
next
  assume "send_step W y = Some y'"
  from send_step_push [OF this, of p]
  show "batch (sink y') = batch (sink y)" and "batchMu y' = batchMu y"
    and "eventsPushed (InfluxSink.stats (sink y')) = eventsPushed (InfluxSink.stats (sink y))"
    and "(push_step y' p = None) = (push_step y p = None)"
    by simp_all
qed

theorem send_drop_accounting_witness:
  "sendChan queued = \<lparr>Points = [1]\<rparr> # [\<lparr>Points = [2]\<rparr>]
   \<and> flaky (client queued) \<lparr>Points = [1]\<rparr> = (Some ''down'', True)
   \<and> length (sendChan queued) \<le> 2
   \<and> send_step flaky queued_system = Some queued_writing
   \<and> (case sendWorker_iter flaky queued of
         None \<Rightarrow> False
       | Some (b', r', lines, s') \<Rightarrow>
           batchesDropped (InfluxSink.stats s') = batchesDropped (InfluxSink.stats queued) + 1
           \<and> batchesSent (InfluxSink.stats s') = batchesSent (InfluxSink.stats queued)
           \<and> sendChan s' = [\<lparr>Points = [2]\<rparr>])
   \<and> map fst (fst (sendWorker flaky 2 queued)) = [\<lparr>Points = [1]\<rparr>, \<lparr>Points = [2]\<rparr>]
   \<and> (push_step queued_writing 9 = None) = (push_step queued_system 9 = None)"
proof -
  have c: "sendChan queued = \<lparr>Points = [1]\<rparr> # [\<lparr>Points = [2]\<rparr>]"
    and w: "flaky (client queued) \<lparr>Points = [1]\<rparr> = (Some ''down'', True)"
    and l: "length (sendChan queued) \<le> 2"
    by (simp_all add: queued_def flaky_def)
  have y: "send_step flaky queued_system = Some queued_writing"
    by (simp add: send_step_def queued_system_def queued_writing_def started_def queued_def)
  from send_drop_accounting
      [of queued "\<lparr>Points = [1]\<rparr>" "[\<lparr>Points = [2]\<rparr>]" flaky "Some ''down''" True 2
        queued_system queued_writing 9]
    c w l y
  show ?thesis
    by (auto split: option.splits prod.splits)
qed

section \<open>Properties of the workers running together\<close>

lemma started_inv: "handoff_inv (started sc c)" "lock_inv (started sc c)"
  by (simp_all add: handoff_inv_def lock_inv_def started_def inflight_def)

lemma push_step_inv:
  assumes "push_step s p = Some s'"
  shows "handoff_inv s \<Longrightarrow> handoff_inv s'" "lock_inv s \<Longrightarrow> lock_inv s'"
  using assms
  by (auto simp: push_step_def handoff_inv_def lock_inv_def Influx_Push_def split: if_splits)

lemma tick_step_inv:
  assumes "tick_step cap s = Some s'"
  shows "handoff_inv s \<Longrightarrow> handoff_inv s'" "lock_inv s \<Longrightarrow> lock_inv s'"
  using assms
  by (auto simp: tick_step_def chan_send_def handoff_inv_def lock_inv_def newBatch_def
      inflight_def split: tick_pc.splits if_splits option.splits)

lemma send_step_inv:
  assumes "send_step W s = Some s'"
  shows "handoff_inv s \<Longrightarrow> handoff_inv s'" "lock_inv s \<Longrightarrow> lock_inv s'"
proof -
  show "handoff_inv s \<Longrightarrow> handoff_inv s'"
  proof (cases "send_pc s")
    case SRecv
    then show "handoff_inv s \<Longrightarrow> handoff_inv s'"
      using assms
      by (auto simp: send_step_def handoff_inv_def inflight_def split: list.splits)
  next
    case (SWrite b)
    obtain r lines k where w: "write_batch W (sink s) b = (r, lines, k)"
      by (cases "write_batch W (sink s) b") auto
    from write_batch_frame(3) [OF w] show "handoff_inv s \<Longrightarrow> handoff_inv s'"
      using assms SWrite w
      by (auto simp: send_step_def handoff_inv_def inflight_def)
  qed
  show "lock_inv s \<Longrightarrow> lock_inv s'"
    using assms
    by (auto simp: send_step_def lock_inv_def split: send_pc.splits list.splits prod.splits)
qed

lemma step_inv:
  assumes "step cap W s m = Some s'"
  shows "handoff_inv s \<Longrightarrow> handoff_inv s'" "lock_inv s \<Longrightarrow> lock_inv s'"
proof -
  show "handoff_inv s \<Longrightarrow> handoff_inv s'"
  proof (cases m)
    case (MPush p)
    with assms have "push_step s p = Some s'" by simp
    then show "handoff_inv s \<Longrightarrow> handoff_inv s'" by (rule push_step_inv)
  next
    case MTick
    with assms have "tick_step cap s = Some s'" by simp
    then show "handoff_inv s \<Longrightarrow> handoff_inv s'" by (rule tick_step_inv)
  next
    case MSend
    with assms have "send_step W s = Some s'" by simp
    then show "handoff_inv s \<Longrightarrow> handoff_inv s'" by (rule send_step_inv)
  qed
  show "lock_inv s \<Longrightarrow> lock_inv s'"
  proof (cases m)
    case (MPush p)
    with assms have "push_step s p = Some s'" by simp
    then show "lock_inv s \<Longrightarrow> lock_inv s'" by (rule push_step_inv)
  next
    case MTick
    with assms have "tick_step cap s = Some s'" by simp
    then show "lock_inv s \<Longrightarrow> lock_inv s'" by (rule tick_step_inv)
  next
    case MSend
    with assms have "send_step W s = Some s'" by simp
    then show "lock_inv s \<Longrightarrow> lock_inv s'" by (rule send_step_inv)
  qed
qed

lemma run_inv:
  assumes "run cap W s ms = Some s'" and "handoff_inv s \<and> lock_inv s"
  shows "handoff_inv s' \<and> lock_inv s'"
  using assms
proof (induction ms arbitrary: s)
  case Nil
  then show ?case by simp
next
  case (Cons m ms)
  from Cons.prems(1) obtain s1 where s1: "step cap W s m = Some s1" "run cap W s1 ms = Some s'"
    by (auto split: option.splits)
  from step_inv [OF s1(1)] Cons.prems(2) have "handoff_inv s1 \<and> lock_inv s1" by simp
  with s1(2) show ?case by (rule Cons.IH)
qed

lemma reachable_inv:
  assumes "run cap W (started sc c) ms = Some s"
  shows "handoff_inv s" "lock_inv s"
proof -
  have "handoff_inv s \<and> lock_inv s"
    by (rule run_inv [OF assms]) (simp add: started_inv)
  then show "handoff_inv s" "lock_inv s" by simp_all
qed

lemma subseq_delivered: "subseq (delivered ws) (map fst ws)"
  unfolding delivered_def by (rule subseq_map) (rule subseq_filter_left)

text \<open>
  C7: in every state the system reaches from its start, under any backend and any channel
  capacity, the batches the tick worker has handed off are, in the order of the hand-offs,
  the batches written so far, then the batch the send worker holds, then the batches in
  the channel. So the writes are a prefix of the hand-offs, in the same order, and the
  batches delivered are a subsequence of them: a batch may be dropped, and no two batches
  are ever reordered.
\<close>

theorem delivery_order:
  assumes "run cap W (started sc c) ms = Some s"
  shows "closed s = map fst (writes s) @ inflight (send_pc s) @ sendChan (sink s)
         \<and> prefix (map fst (writes s)) (closed s)
         \<and> subseq (delivered (writes s)) (closed s)"
proof -
  have i: "closed s = map fst (writes s) @ inflight (send_pc s) @ sendChan (sink s)"
    using reachable_inv(1) [OF assms] by (simp add: handoff_inv_def)
  then have p: "prefix (map fst (writes s)) (closed s)" by simp
  have "subseq (map fst (writes s)) (closed s)"
    using p by (rule prefix_imp_subseq)
  with subseq_delivered [of "writes s"] have "subseq (delivered (writes s)) (closed s)"
    by (rule subseq_order.trans)
  with i p show ?thesis by simp
qed


lemma tick_blocked:
  "tick_step cap s = None
     = ((tick_pc s = TLock \<and> batchMu s) \<or> (tick_pc s = TSend \<and> \<not> room cap s))"
  by (auto simp: tick_step_def chan_send_def room_def split: tick_pc.splits option.splits)

lemma critical_section_exits:
  assumes "batchMu s" and "tick_pc s \<in> {TCheck, TSend, TNewBatch, TUnlock}"
    and "room cap s"
  shows "unlocked_after (run cap W s (critical_section s))"
proof (cases "tick_pc s")
  case TCheck
  then show ?thesis
    using assms(3)
    by (cases "Points (batch (sink s)) = []")
      (auto simp: critical_section_def unlocked_after_def tick_step_def chan_send_def room_def
        newBatch_def)
next
  case TSend
  then show ?thesis
    using assms(3)
    by (auto simp: critical_section_def unlocked_after_def tick_step_def chan_send_def room_def
        newBatch_def)
next
  case TNewBatch
  then show ?thesis
    by (simp add: critical_section_def unlocked_after_def tick_step_def newBatch_def)
next
  case TUnlock
  then show ?thesis
    by (simp add: critical_section_def unlocked_after_def tick_step_def)
qed (use assms(2) in simp_all)

lemmas system_defs = started_def push_step_def tick_step_def send_step_def chan_send_def
  Influx_Push_def newBatch_def write_batch_def flaky_def IncrEventsPushed_def IncrBatchSent_def
  IncrBatchDropped_def SinkStats_zero_def push_and_tick_def

lemma run_three_batches:
  "run 2 flaky (started SinkConfig_zero False)
       (push_and_tick 1 @ [MSend] @ push_and_tick 2 @ push_and_tick 3 @ [MSend, MSend])
     = Some three_batches"
  by (simp add: system_defs three_batches_def SinkConfig_zero_def)

theorem delivery_order_witness:
  "run 2 flaky (started SinkConfig_zero False)
       (push_and_tick 1 @ [MSend] @ push_and_tick 2 @ push_and_tick 3 @ [MSend, MSend])
     = Some three_batches
   \<and> prefix (map fst (writes three_batches)) (closed three_batches)
   \<and> subseq (delivered (writes three_batches)) (closed three_batches)
   \<and> delivered (writes three_batches) = [\<lparr>Points = [2]\<rparr>]
   \<and> closed three_batches = [\<lparr>Points = [1]\<rparr>, \<lparr>Points = [2]\<rparr>, \<lparr>Points = [3]\<rparr>]"
proof -
  have "delivered (writes three_batches) = [\<lparr>Points = [2]\<rparr>]"
    and "closed three_batches = [\<lparr>Points = [1]\<rparr>, \<lparr>Points = [2]\<rparr>, \<lparr>Points = [3]\<rparr>]"
    by (simp_all add: three_batches_def delivered_def)
  with delivery_order [OF run_three_batches] run_three_batches show ?thesis
    by blast
qed

lemma run_at_check:
  "run 1 flaky (started SinkConfig_zero False) [MPush 1, MTick, MTick] = Some at_check"
  by (simp add: system_defs at_check_def)

lemma run_unbuffered_blocked:
  "run 0 flaky (started SinkConfig_zero False) (push_and_tick 1 @ [MPush 2, MTick, MTick, MTick])
     = Some blocked_unbuffered"
  by (simp add: system_defs blocked_unbuffered_def)

lemma run_buffered_blocked:
  "run 1 flaky (started SinkConfig_zero False)
       (push_and_tick 1 @ push_and_tick 2 @ [MPush 3, MTick, MTick, MTick])
     = Some blocked_buffered"
  by (simp add: system_defs blocked_buffered_def)

text \<open>
  C2, as the code has it: in every state the system reaches, the lock is held exactly
  while the tick worker is at its check, its send on the channel, newBatch or Unlock; no
  step of the send worker takes or releases it, so no backend write is made under the
  lock. While the send can go through (the channel has room or the send worker waits at
  its receive), the tick worker's own next statements, four at most, release the lock.
  The only statement at which the holder of the lock can wait is the send, and it waits
  there exactly when the channel is full and the send worker is not at its receive on an
  empty channel.
\<close>

theorem lock_scope:
  assumes "run cap W (started sc c) ms = Some s"
  shows "batchMu s = (tick_pc s \<in> {TCheck, TSend, TNewBatch, TUnlock})
     \<and> (batchMu s \<and> (tick_pc s = TSend \<or> tick_pc s = TCheck \<longrightarrow> room cap s)
          \<longrightarrow> unlocked_after (run cap W s (critical_section s)))
     \<and> (batchMu s \<and> tick_step cap s = None
          \<longrightarrow> tick_pc s = TSend \<and> cap \<le> length (sendChan (sink s))
              \<and> (send_pc s = SRecv \<longrightarrow> sendChan (sink s) \<noteq> []))
     \<and> (case send_step W s of None \<Rightarrow> True | Some s' \<Rightarrow> batchMu s' = batchMu s)"
proof (intro conjI impI)
  show l: "batchMu s = (tick_pc s \<in> {TCheck, TSend, TNewBatch, TUnlock})"
    using reachable_inv(2) [OF assms] by (simp add: lock_inv_def)
  show "unlocked_after (run cap W s (critical_section s))"
    if a: "batchMu s \<and> (tick_pc s = TSend \<or> tick_pc s = TCheck \<longrightarrow> room cap s)"
  proof (cases "tick_pc s = TSend \<or> tick_pc s = TCheck")
    case True
    with a l show ?thesis by (intro critical_section_exits) simp_all
  next
    case False
    with a l have "tick_pc s = TNewBatch \<or> tick_pc s = TUnlock" by auto
    then show ?thesis
      by (auto simp: critical_section_def unlocked_after_def tick_step_def newBatch_def)
  qed
  assume b: "batchMu s \<and> tick_step cap s = None"
  with l have "tick_pc s \<noteq> TLock" by auto
  with b have t: "tick_pc s = TSend \<and> \<not> room cap s" by (simp add: tick_blocked)
  then show "tick_pc s = TSend" by simp
  from t show "cap \<le> length (sendChan (sink s))" by (simp add: room_def)
  show "sendChan (sink s) \<noteq> []" if "send_pc s = SRecv"
    using t that by (simp add: room_def)
next
  show "case send_step W s of None \<Rightarrow> True | Some s' \<Rightarrow> batchMu s' = batchMu s"
    by (auto split: option.splits dest: send_step_frame(1))
qed


theorem lock_scope_witness:
  "run 1 flaky (started SinkConfig_zero False) [MPush 1, MTick, MTick] = Some at_check
   \<and> batchMu at_check \<and> tick_pc at_check = TCheck \<and> room 1 at_check
   \<and> unlocked_after (run 1 flaky at_check (critical_section at_check))
   \<and> run 1 flaky (started SinkConfig_zero False)
         (push_and_tick 1 @ push_and_tick 2 @ [MPush 3, MTick, MTick, MTick])
       = Some blocked_buffered
   \<and> batchMu blocked_buffered \<and> tick_step 1 blocked_buffered = None
   \<and> tick_pc blocked_buffered = TSend \<and> 1 \<le> length (sendChan (sink blocked_buffered))"
proof -
  have c: "batchMu at_check" "tick_pc at_check = TCheck" "room 1 at_check"
    by (simp_all add: at_check_def room_def)
  have b: "batchMu blocked_buffered" "tick_step 1 blocked_buffered = None"
    by (simp_all add: blocked_buffered_def tick_step_def chan_send_def)
  from lock_scope [OF run_at_check] lock_scope [OF run_buffered_blocked] c b
    run_at_check run_buffered_blocked
  show ?thesis by blast
qed

text \<open>
  C2, as the claim states it, fails. With an unbuffered channel, and with a channel of
  capacity one, the system reaches a state in which the tick worker holds the lock at its
  send, the send worker is inside the backend write of an earlier batch, and neither the
  tick worker nor Push can move: the lock is held until that write returns.
\<close>

theorem lock_held_during_write:
  "(case run 0 flaky (started SinkConfig_zero False)
           (push_and_tick 1 @ [MPush 2, MTick, MTick, MTick]) of
      None \<Rightarrow> False
    | Some s \<Rightarrow> batchMu s \<and> tick_pc s = TSend \<and> send_pc s = SWrite \<lparr>Points = [1]\<rparr>
        \<and> step 0 flaky s MTick = None \<and> step 0 flaky s (MPush 3) = None)
   \<and> (case run 1 flaky (started SinkConfig_zero False)
              (push_and_tick 1 @ push_and_tick 2 @ [MPush 3, MTick, MTick, MTick]) of
      None \<Rightarrow> False
    | Some s \<Rightarrow> batchMu s \<and> tick_pc s = TSend \<and> send_pc s = SWrite \<lparr>Points = [1]\<rparr>
        \<and> step 1 flaky s MTick = None \<and> step 1 flaky s (MPush 4) = None)"
  unfolding run_unbuffered_blocked run_buffered_blocked
  by (simp add: push_step_def tick_step_def chan_send_def blocked_unbuffered_def
      blocked_buffered_def)

section \<open>Properties of the startup burst\<close>























section \<open>Properties of the cooldown\<close>

lemma on_packet_simps:
  "fst (on_packet pol f t) = pol (pkts f + 1) (last_report f) t"
  "pkts (snd (on_packet pol f t)) = pkts f + 1"
  "last_report (snd (on_packet pol f t)) = (if pol (pkts f + 1) (last_report f) t then t else last_report f)"
  by (simp_all add: on_packet_def)

lemma spaced_updates_from:
  "spaced c ((last_report f, k) # updates (should_report burst c) f ts)"
proof (induction ts arbitrary: f k)
  case Nil
  then show ?case by simp
next
  case (Cons t ts)
  show ?case
  proof (cases "should_report burst c (pkts f + 1) (last_report f) t")
    case True
    then have "updates (should_report burst c) f (t # ts)
        = (t, pkts f + 1) # updates (should_report burst c) \<lparr>pkts = pkts f + 1, last_report = t\<rparr> ts"
      by (simp add: on_packet_def)
    moreover have "pkts f + 1 \<le> 32 \<or> last_report f + c \<le> t"
      using True by (auto simp: should_report_def split: if_splits)
    moreover have "spaced c ((t, pkts f + 1) # updates (should_report burst c) \<lparr>pkts = pkts f + 1, last_report = t\<rparr> ts)"
      using Cons.IH [of "\<lparr>pkts = pkts f + 1, last_report = t\<rparr>" "pkts f + 1"] by simp
    ultimately show ?thesis by simp
  next
    case False
    then have "updates (should_report burst c) f (t # ts)
        = updates (should_report burst c) (f\<lparr>pkts := pkts f + 1\<rparr>) ts"
      by (simp add: on_packet_def)
    then show ?thesis
      using Cons.IH [of "f\<lparr>pkts := pkts f + 1\<rparr>" k] by simp
  qed
qed

lemma spaced_tl: "spaced c (e # es) \<Longrightarrow> spaced c es"
  by (cases es) simp_all

lemma spaced_updates: "spaced c (updates (should_report burst c) f ts)"
  using spaced_updates_from [of c f 0 burst ts] by (rule spaced_tl)

lemma quiet_updates:
  assumes "32 \<le> pkts f" and "\<forall>t\<in>set ts. t < last_report f + c"
  shows "updates (should_report burst c) f (ts @ us)
           = updates (should_report burst c) (f\<lparr>pkts := pkts f + length ts\<rparr>) us"
  using assms
proof (induction ts arbitrary: f)
  case Nil
  then show ?case by simp
next
  case (Cons t ts)
  have no: "\<not> should_report burst c (pkts f + 1) (last_report f) t"
    using Cons.prems by (simp add: should_report_def)
  have "updates (should_report burst c) f ((t # ts) @ us)
      = updates (should_report burst c) (f\<lparr>pkts := pkts f + 1\<rparr>) (ts @ us)"
    using no by (simp add: on_packet_def)
  also have "\<dots> = updates (should_report burst c) (f\<lparr>pkts := pkts f + 1, pkts := pkts f + 1 + length ts\<rparr>) us"
    using Cons.IH [of "f\<lparr>pkts := pkts f + 1\<rparr>"] Cons.prems by simp
  finally show ?case by simp
qed

text \<open>
  C6: for a flow driven packet by packet, under the policy with any burst counts and any
  cooldown, every Update after the burst comes at least the cooldown after the Update
  before it; and once the burst is over, packets that arrive before the cooldown has
  elapsed since the previous report produce no Update, and the first packet that arrives
  after it has elapsed produces exactly one, which becomes the previous report.
\<close>

theorem cooldown_gate:
  "spaced c (updates (should_report burst c) f ts)
   \<and> (32 \<le> pkts f \<and> (\<forall>t\<in>set ts. t < last_report f + c) \<and> last_report f + c \<le> t'
        \<longrightarrow> updates (should_report burst c) f (ts @ [t']) = [(t', pkts f + length ts + 1)]
            \<and> last_report (snd (on_packet (should_report burst c) (f\<lparr>pkts := pkts f + length ts\<rparr>) t')) = t')"
proof (intro conjI impI)
  show "spaced c (updates (should_report burst c) f ts)" by (rule spaced_updates)
next
  assume a: "32 \<le> pkts f \<and> (\<forall>t\<in>set ts. t < last_report f + c) \<and> last_report f + c \<le> t'"
  then have "updates (should_report burst c) f (ts @ [t'])
      = updates (should_report burst c) (f\<lparr>pkts := pkts f + length ts\<rparr>) [t']"
    using quiet_updates [of f ts c burst "[t']"] by simp
  also have "\<dots> = [(t', pkts f + length ts + 1)]"
    using a by (simp add: on_packet_def should_report_def)
  finally show "updates (should_report burst c) f (ts @ [t']) = [(t', pkts f + length ts + 1)]" .
  show "last_report (snd (on_packet (should_report burst c) (f\<lparr>pkts := pkts f + length ts\<rparr>) t')) = t'"
    using a by (simp add: on_packet_def should_report_def)
qed

theorem cooldown_gate_witness:
  "spaced 20 (updates (should_report burst_test 20) \<lparr>pkts = 32, last_report = 100\<rparr> [105, 119])
   \<and> updates (should_report burst_test 20) \<lparr>pkts = 32, last_report = 100\<rparr> ([105, 119] @ [120])
        = [(120, 35)]"
  using cooldown_gate [of 20 burst_test "\<lparr>pkts = 32, last_report = 100\<rparr>" "[105, 119]" 120]
  by simp

end
